theory Spec2Isabelle
  imports Complex_Main "HOL-Library.Word"
begin

unbundle bit_operations_syntax

section \<open>The Mandelbrot renderer of main.c\<close>

text \<open>
  The embedding follows \<^verbatim>\<open>src/main.c\<close>, in two readings of a C \<^verbatim>\<open>double\<close>. In the first
  part a \<^verbatim>\<open>double\<close> is a real number and the arithmetic the program writes down is
  evaluated exactly; the statements proved in this reading are the ones that rounding
  does not touch. The part headed \<open>The binary64 reading\<close> rounds every operation as the
  hardware does, and carries the statements that depend on it.
  The C \<^verbatim>\<open>int\<close> values that count iterations, rows, columns and threads are
  natural numbers (none of them comes near the 32-bit limits); the argument of
  \<open>get_color\<close> and the mouse coordinates are integers. The two globals
  \<^verbatim>\<open>SCREEN_WIDTH\<close> and \<^verbatim>\<open>SCREEN_HEIGHT\<close>, set once in \<^verbatim>\<open>main\<close>, are passed
  as arguments.
\<close>

subsection \<open>Constants and structs\<close>

definition MAX_ITERATIONS :: nat where
  "MAX_ITERATIONS = 255"

record Color =
  r :: "8 word"
  g :: "8 word"
  b :: "8 word"

text \<open>
  The three doubles \<^verbatim>\<open>main\<close> keeps across frames; \<^verbatim>\<open>ThreadArgs\<close> carries a copy of
  them with the thread's number and the thread count (its \<^verbatim>\<open>pixels\<close> and \<^verbatim>\<open>pitch\<close>
  fields are replaced by the list of writes a thread returns).
\<close>

record Viewport =
  center_r :: real
  center_i :: real
  zoom :: real

record ThreadArgs = Viewport +
  thread_id :: nat
  num_threads :: nat

subsection \<open>Conversions\<close>

text \<open>\<^verbatim>\<open>(int)d\<close>: truncation toward zero.\<close>

definition c_int :: "real \<Rightarrow> int" where
  "c_int d = (if 0 \<le> d then \<lfloor>d\<rfloor> else \<lceil>d\<rceil>)"

text \<open>Storing an \<^verbatim>\<open>int\<close> in an \<^verbatim>\<open>unsigned char\<close> keeps it modulo 256.\<close>

definition uchar :: "int \<Rightarrow> 8 word" where
  "uchar k = word_of_int k"

subsection \<open>get_color\<close>

definition get_color :: "int \<Rightarrow> Color" where
  "get_color n =
     (if n \<ge> int MAX_ITERATIONS then \<lparr>r = 0, g = 0, b = 0\<rparr>
      else \<lparr>r = uchar (c_int (sin (0.1 * real_of_int n) * 127 + 128)),
            g = uchar (c_int (sin (0.1 * real_of_int n + 2) * 127 + 128)),
            b = uchar (c_int (sin (0.1 * real_of_int n + 4) * 127 + 128))\<rparr>)"

text \<open>\<^verbatim>\<open>(0xFF << 24) | (color.r << 16) | (color.g << 8) | color.b\<close>\<close>

definition argb :: "Color \<Rightarrow> 32 word" where
  "argb color = push_bit 24 0xFF OR push_bit 16 (ucast (r color)) OR push_bit 8 (ucast (g color))
                  OR ucast (b color)"

subsection \<open>periodicity_check\<close>

definition periodicity_check :: "real \<Rightarrow> real \<Rightarrow> bool" where
  "periodicity_check cr ci =
     (if (cr + 1) * (cr + 1) + ci * ci < 0.0625 then True
      else (let q = (cr - 0.25) * (cr - 0.25) + ci * ci
            in if q * (q + (cr - 0.25)) < 0.25 * ci * ci then True else False))"

subsection \<open>The rows of a thread and the scale factors (head of render_thread)\<close>

definition start_y :: "nat \<Rightarrow> nat \<Rightarrow> nat \<Rightarrow> nat" where
  "start_y SCREEN_HEIGHT nthreads tid = (SCREEN_HEIGHT div nthreads) * tid"

definition end_y :: "nat \<Rightarrow> nat \<Rightarrow> nat \<Rightarrow> nat" where
  "end_y SCREEN_HEIGHT nthreads tid = (SCREEN_HEIGHT div nthreads) * (tid + 1)"

text \<open>The rows \<^verbatim>\<open>for (int y = start_y; y < end_y; y++)\<close> visits.\<close>

definition thread_rows :: "nat \<Rightarrow> nat \<Rightarrow> nat \<Rightarrow> nat set" where
  "thread_rows SCREEN_HEIGHT nthreads tid =
     {start_y SCREEN_HEIGHT nthreads tid ..< end_y SCREEN_HEIGHT nthreads tid}"

text \<open>The rows of a frame: \<^verbatim>\<open>main\<close> starts the threads \<open>0, \<dots>, num_threads - 1\<close>.\<close>

definition frame_rows :: "nat \<Rightarrow> nat \<Rightarrow> nat set" where
  "frame_rows SCREEN_HEIGHT nthreads = (\<Union>tid \<in> {0 ..< nthreads}. thread_rows SCREEN_HEIGHT nthreads tid)"

definition aspect_ratio :: "nat \<Rightarrow> nat \<Rightarrow> real" where
  "aspect_ratio SCREEN_WIDTH SCREEN_HEIGHT = real SCREEN_WIDTH / real SCREEN_HEIGHT"

definition x_scale :: "nat \<Rightarrow> nat \<Rightarrow> real \<Rightarrow> real" where
  "x_scale SCREEN_WIDTH SCREEN_HEIGHT zm =
     (4 * aspect_ratio SCREEN_WIDTH SCREEN_HEIGHT * zm) / real SCREEN_WIDTH"

definition y_scale :: "nat \<Rightarrow> real \<Rightarrow> real" where
  "y_scale SCREEN_WIDTH zm = (4 * zm) / real SCREEN_WIDTH"

text \<open>
  The coordinates of pixel \<open>(x, y)\<close>: \<^verbatim>\<open>cr_base0\<close> (and \<^verbatim>\<open>cr\<close> of the fallback path) and
  \<^verbatim>\<open>ci_base\<close> (\<^verbatim>\<open>ci\<close>).
\<close>

definition pixel_cr :: "nat \<Rightarrow> nat \<Rightarrow> 'a Viewport_scheme \<Rightarrow> nat \<Rightarrow> real" where
  "pixel_cr SCREEN_WIDTH SCREEN_HEIGHT v x =
     center_r v + (real x - real SCREEN_WIDTH / 2) * x_scale SCREEN_WIDTH SCREEN_HEIGHT (zoom v)"

definition pixel_ci :: "nat \<Rightarrow> nat \<Rightarrow> 'a Viewport_scheme \<Rightarrow> nat \<Rightarrow> real" where
  "pixel_ci SCREEN_WIDTH SCREEN_HEIGHT v y =
     center_i v + (real y - real SCREEN_HEIGHT / 2) * y_scale SCREEN_WIDTH (zoom v)"

subsection \<open>The scalar escape-time loop (fallback path of render_thread)\<close>

text \<open>
  \<^verbatim>\<open>
  double zr = 0.0, zi = 0.0;
  int n = 0;
  for (; n < MAX_ITERATIONS; n++) {
      double zr2 = zr * zr;
      double zi2 = zi * zi;
      if (zr2 + zi2 >= 4.0) break;
      zi = 2.0 * zr * zi + ci;
      zr = zr2 - zi2 + cr;
  }
  \<close>
  The loop bound is a parameter here; the program runs it with \<open>MAX_ITERATIONS\<close>.
\<close>

function escape_loop :: "nat \<Rightarrow> real \<Rightarrow> real \<Rightarrow> nat \<Rightarrow> real \<Rightarrow> real \<Rightarrow> nat" where
  "escape_loop max_iter cr ci n zr zi =
     (if n < max_iter then
        (if zr * zr + zi * zi \<ge> 4 then n
         else escape_loop max_iter cr ci (n + 1) (zr * zr - zi * zi + cr) (2 * zr * zi + ci))
      else n)"
  by pat_completeness auto
termination
  by (relation "measure (\<lambda>(max_iter, cr, ci, n, zr, zi). max_iter - n)") auto

declare escape_loop.simps [simp del]

definition escape_iterations :: "real \<Rightarrow> real \<Rightarrow> nat \<Rightarrow> nat" where
  "escape_iterations cr ci max_iter = escape_loop max_iter cr ci 0 0 0"

definition scalar_kernel :: "real \<Rightarrow> real \<Rightarrow> nat" where
  "scalar_kernel cr ci = escape_iterations cr ci MAX_ITERATIONS"

subsection \<open>The SSE2 loop (x86 path of render_thread)\<close>

text \<open>
  An \<^verbatim>\<open>__m128d\<close> is a pair of doubles, lane 0 first. A comparison result is a pair of
  lane masks, all ones or all zeros, kept as booleans; and-ing a mask with a vector keeps
  the lane where the mask is set and gives \<open>0.0\<close> where it is clear.
  \<^verbatim>\<open>_mm_set_pd(e1, e0)\<close> puts its second argument in lane 0.
\<close>

type_synonym m128d = "real \<times> real"
type_synonym m128d_mask = "bool \<times> bool"

definition mm_set1_pd :: "real \<Rightarrow> m128d" where
  "mm_set1_pd a = (a, a)"

definition mm_set_pd :: "real \<Rightarrow> real \<Rightarrow> m128d" where
  "mm_set_pd e1 e0 = (e0, e1)"

definition mm_setzero_pd :: m128d where
  "mm_setzero_pd = (0, 0)"

definition mm_mul_pd :: "m128d \<Rightarrow> m128d \<Rightarrow> m128d" where
  "mm_mul_pd a c = (fst a * fst c, snd a * snd c)"

definition mm_add_pd :: "m128d \<Rightarrow> m128d \<Rightarrow> m128d" where
  "mm_add_pd a c = (fst a + fst c, snd a + snd c)"

definition mm_sub_pd :: "m128d \<Rightarrow> m128d \<Rightarrow> m128d" where
  "mm_sub_pd a c = (fst a - fst c, snd a - snd c)"

definition mm_cmplt_pd :: "m128d \<Rightarrow> m128d \<Rightarrow> m128d_mask" where
  "mm_cmplt_pd a c = (fst a < fst c, snd a < snd c)"

definition mm_movemask_pd :: "m128d_mask \<Rightarrow> nat" where
  "mm_movemask_pd m = (if fst m then 1 else 0) + (if snd m then 2 else 0)"

definition mm_and_pd :: "m128d_mask \<Rightarrow> m128d \<Rightarrow> m128d" where
  "mm_and_pd m a = (if fst m then fst a else 0, if snd m then snd a else 0)"

text \<open>
  \<^verbatim>\<open>
  for (int i = 0; i < MAX_ITERATIONS; i++) {
      _zr2 = _zr * _zr;  _zi2 = _zi * _zi;
      _mag2 = _zr2 + _zi2;
      _escape_mask = _mag2 < _fours;
      if (_mm_movemask_pd(_escape_mask) == 0) break;
      _iterations = _iterations + (_escape_mask & _ones);
      _zri = _zr * _zi;
      _zr_temp = (_zr2 - _zi2) + _cr;
      _zi = (_zri * _two) + _ci;
      _zr = _zr_temp;
  }
  \<close>
\<close>

function simd_loop :: "nat \<Rightarrow> m128d \<Rightarrow> m128d \<Rightarrow> nat \<Rightarrow> m128d \<Rightarrow> m128d \<Rightarrow> m128d \<Rightarrow> m128d" where
  "simd_loop max_iter cr ci i zr zi iterations =
     (if i < max_iter then
        (let zr2 = mm_mul_pd zr zr;
             zi2 = mm_mul_pd zi zi;
             mag2 = mm_add_pd zr2 zi2;
             escape_mask = mm_cmplt_pd mag2 (mm_set1_pd 4)
         in if mm_movemask_pd escape_mask = 0 then iterations
            else
              (let iterations' = mm_add_pd iterations (mm_and_pd escape_mask (mm_set1_pd 1));
                   zri = mm_mul_pd zr zi;
                   zr_temp = mm_add_pd (mm_sub_pd zr2 zi2) cr;
                   zi' = mm_add_pd (mm_mul_pd zri (mm_set1_pd 2)) ci
               in simd_loop max_iter cr ci (i + 1) zr_temp zi' iterations'))
      else iterations)"
  by pat_completeness auto
termination
  by (relation "measure (\<lambda>(max_iter, cr, ci, i, zr, zi, iterations). max_iter - i)") auto

declare simd_loop.simps [simp del]

text \<open>
  The kernel for the pixel pair \<open>(cr_base0, ci_base)\<close>, \<open>(cr_base1, ci_base)\<close>: the loop
  from \<open>z = 0\<close> with zeroed counters, then \<^verbatim>\<open>_mm_storeu_pd(n_values, _iterations)\<close> and
  the two casts \<^verbatim>\<open>(int)n_values[0]\<close>, \<^verbatim>\<open>(int)n_values[1]\<close>.
\<close>

definition vector_kernel :: "real \<Rightarrow> real \<Rightarrow> real \<Rightarrow> int \<times> int" where
  "vector_kernel cr_base0 cr_base1 ci_base =
     (let n_values = simd_loop MAX_ITERATIONS (mm_set_pd cr_base1 cr_base0) (mm_set1_pd ci_base) 0
                        mm_setzero_pd mm_setzero_pd mm_setzero_pd
      in (c_int (fst n_values), c_int (snd n_values)))"

subsection \<open>One row of the SSE2 path\<close>

text \<open>
  The inner loop \<^verbatim>\<open>for (int x = 0; x < SCREEN_WIDTH; x += 2)\<close>, from column \<open>x\<close> on;
  \<^verbatim>\<open>cr_base1\<close> is the coordinate of column \<open>x + 1\<close>. The result is the list of the stores
  into \<^verbatim>\<open>row\<close>, in program order, each as the column index and the pixel stored.
\<close>

function simd_row_loop ::
  "nat \<Rightarrow> nat \<Rightarrow> 'a Viewport_scheme \<Rightarrow> real \<Rightarrow> nat \<Rightarrow> (nat \<times> 32 word) list" where
  "simd_row_loop SCREEN_WIDTH SCREEN_HEIGHT args ci_base x =
     (if x < SCREEN_WIDTH then
        (let cr_base0 = pixel_cr SCREEN_WIDTH SCREEN_HEIGHT args x;
             cr_base1 = pixel_cr SCREEN_WIDTH SCREEN_HEIGHT args (x + 1)
         in if periodicity_check cr_base0 ci_base \<and> periodicity_check cr_base1 ci_base then
              [(x, 0xFF000000)]
              @ (if x + 1 < SCREEN_WIDTH then [(x + 1, 0xFF000000)] else [])
              @ simd_row_loop SCREEN_WIDTH SCREEN_HEIGHT args ci_base (x + 2)
            else
              (let n_values = vector_kernel cr_base0 cr_base1 ci_base;
                   color1 = get_color (fst n_values)
               in [(x, argb color1)]
                  @ (if x + 1 < SCREEN_WIDTH
                     then (let color2 = get_color (snd n_values) in [(x + 1, argb color2)])
                     else [])
                  @ simd_row_loop SCREEN_WIDTH SCREEN_HEIGHT args ci_base (x + 2)))
      else [])"
  by pat_completeness auto
termination
  by (relation "measure (\<lambda>(SCREEN_WIDTH, SCREEN_HEIGHT, args, ci_base, x). SCREEN_WIDTH - x)") auto

declare simd_row_loop.simps [simp del]

text \<open>Row \<open>y\<close> as a thread with arguments \<open>args\<close> renders it.\<close>

definition simd_row :: "nat \<Rightarrow> nat \<Rightarrow> 'a Viewport_scheme \<Rightarrow> nat \<Rightarrow> (nat \<times> 32 word) list" where
  "simd_row SCREEN_WIDTH SCREEN_HEIGHT args y =
     simd_row_loop SCREEN_WIDTH SCREEN_HEIGHT args (pixel_ci SCREEN_WIDTH SCREEN_HEIGHT args y) 0"

text \<open>The stores of a whole thread: row, column, pixel.\<close>

definition render_thread :: "nat \<Rightarrow> nat \<Rightarrow> ThreadArgs \<Rightarrow> (nat \<times> nat \<times> 32 word) list" where
  "render_thread SCREEN_WIDTH SCREEN_HEIGHT args =
     concat (map (\<lambda>y. map (\<lambda>w. (y, w)) (simd_row SCREEN_WIDTH SCREEN_HEIGHT args y))
       [start_y SCREEN_HEIGHT (num_threads args) (thread_id args)
          ..< end_y SCREEN_HEIGHT (num_threads args) (thread_id args)])"

subsection \<open>The main loop: the mouse click\<close>

text \<open>
  The handler of \<^verbatim>\<open>SDL_MOUSEBUTTONDOWN\<close> with \<^verbatim>\<open>SDL_BUTTON_LEFT\<close> at \<open>(button_x, button_y)\<close>:
  \<^verbatim>\<open>
  mouse_r = center_r + (e.button.x - SCREEN_WIDTH / 2.0) * (4.0 * aspect_ratio * zoom) / SCREEN_WIDTH;
  mouse_i = center_i + (e.button.y - SCREEN_HEIGHT / 2.0) * (4.0 * zoom) / SCREEN_WIDTH;
  center_r = mouse_r;  center_i = mouse_i;
  \<close>
\<close>

definition left_click :: "nat \<Rightarrow> nat \<Rightarrow> int \<Rightarrow> int \<Rightarrow> Viewport \<Rightarrow> Viewport" where
  "left_click SCREEN_WIDTH SCREEN_HEIGHT button_x button_y v =
     (let ar = real SCREEN_WIDTH / real SCREEN_HEIGHT;
          mouse_r = center_r v + (real_of_int button_x - real SCREEN_WIDTH / 2) * (4 * ar * zoom v) / real SCREEN_WIDTH;
          mouse_i = center_i v + (real_of_int button_y - real SCREEN_HEIGHT / 2) * (4 * zoom v) / real SCREEN_WIDTH
      in v\<lparr>center_r := mouse_r, center_i := mouse_i\<rparr>)"


subsection \<open>The mapping as the specification writes it\<close>


subsection \<open>A view inside the period-2 disc\<close>

text \<open>A view so far zoomed in on \<open>-1\<close> that every pixel lies in the period-2 disc.\<close>

definition bulb_view :: Viewport where
  "bulb_view = \<lparr>center_r = - 1, center_i = 0, zoom = 1 / 100\<rparr>"

subsection \<open>The orbit of zero\<close>

text \<open>
  The iterates \<open>z\<^sub>0 = 0\<close>, \<open>z\<^sub>k\<^sub>+\<^sub>1 = z\<^sub>k\<^sup>2 + c\<close> both loops walk through, as real and
  imaginary part, written as the scalar loop computes them; \<open>escaped\<close> is the scalar
  loop's exit test at the \<open>k\<close>-th iterate.
\<close>

fun orbit :: "real \<Rightarrow> real \<Rightarrow> nat \<Rightarrow> real \<times> real" where
  "orbit cr ci 0 = (0, 0)"
| "orbit cr ci (Suc k) =
     (let zr = fst (orbit cr ci k); zi = snd (orbit cr ci k)
      in (zr * zr - zi * zi + cr, 2 * zr * zi + ci))"

definition escaped :: "real \<Rightarrow> real \<Rightarrow> nat \<Rightarrow> bool" where
  "escaped cr ci k \<longleftrightarrow>
     4 \<le> fst (orbit cr ci k) * fst (orbit cr ci k) + snd (orbit cr ci k) * snd (orbit cr ci k)"

definition zc :: "real \<Rightarrow> real \<Rightarrow> nat \<Rightarrow> complex" where
  "zc cr ci k = Complex (fst (orbit cr ci k)) (snd (orbit cr ci k))"

section \<open>The binary64 reading\<close>

text \<open>
  The statements that compare the two kernels, or follow \<^verbatim>\<open>zoom\<close> over many frames,
  depend on how a \<^verbatim>\<open>double\<close> is rounded. For them the program is read once more with
  IEEE 754 binary64 arithmetic: every C operation is rounded once, to nearest with ties
  to even, to a 53-bit significand whose last place is at least \<open>2\<^sup>-\<^sup>1\<^sup>0\<^sup>7\<^sup>4\<close> (gradual
  underflow); a result of magnitude \<open>2\<^sup>1\<^sup>0\<^sup>2\<^sup>4\<close> or more is an infinity. No operation is
  fused with another and none is carried out in a wider format.

  \<open>Fin m e\<close> is the number \<open>m \<cdot> 2\<^sup>e\<close>, \<open>Infty s\<close> the infinity that is negative when \<open>s\<close>
  holds. The two zeros are not told apart: they compare equal, and the program divides
  only by the frame width, the frame height and \<open>2.0\<close>.
\<close>

subsection \<open>Rounding\<close>

datatype double = Fin int int | Infty bool | NaN

text \<open>The number of binary digits of \<open>n\<close>.\<close>

fun bit_length :: "nat \<Rightarrow> nat" where
  "bit_length n = (if n = 0 then 0 else Suc (bit_length (n div 2)))"

declare bit_length.simps [simp del]

text \<open>
  \<open>rne m s\<close> is \<open>m / 2\<^sup>s\<close> rounded to the nearest integer, ties to even: \<open>q\<close> is the
  quotient rounded down, \<open>rest\<close> what it leaves out of \<open>p = 2\<^sup>s\<close>.
\<close>

definition rne_pick :: "int \<Rightarrow> int \<Rightarrow> int \<Rightarrow> int" where
  "rne_pick q rest p =
     (if 2 * rest < p then q
      else if 2 * rest > p then q + 1
      else if even q then q else q + 1)"

definition rne :: "int \<Rightarrow> nat \<Rightarrow> int" where
  "rne m s = rne_pick (m div 2 ^ s) (m mod 2 ^ s) (2 ^ s)"

text \<open>
  \<open>round_double m e\<close> is the binary64 value of the exact result \<open>m \<cdot> 2\<^sup>e\<close>: the
  significand loses the digits beyond the 53rd, and those below \<open>2\<^sup>-\<^sup>1\<^sup>0\<^sup>7\<^sup>4\<close>; \<open>pack\<close>
  turns a rounded value that is too large into an infinity.
\<close>

definition pack :: "int \<Rightarrow> int \<Rightarrow> double" where
  "pack m e = (if int (bit_length (nat \<bar>m\<bar>)) + e > 1024 then Infty (m < 0) else Fin m e)"

definition round_shift :: "int \<Rightarrow> int \<Rightarrow> int \<Rightarrow> double" where
  "round_shift m e s = (if s \<le> 0 then pack m e else pack (rne m (nat s)) (e + s))"

definition round_double :: "int \<Rightarrow> int \<Rightarrow> double" where
  "round_double m e =
     (if m = 0 then Fin 0 0
      else round_shift m e (max (int (bit_length (nat \<bar>m\<bar>)) - 53) (- 1074 - e)))"

subsection \<open>Arithmetic and comparisons\<close>

definition aligned_sum :: "int \<Rightarrow> int \<Rightarrow> int \<Rightarrow> int \<Rightarrow> int \<Rightarrow> double" where
  "aligned_sum m1 e1 m2 e2 e = round_double (m1 * 2 ^ nat (e1 - e) + m2 * 2 ^ nat (e2 - e)) e"

fun d_mul :: "double \<Rightarrow> double \<Rightarrow> double" where
  "d_mul (Fin m1 e1) (Fin m2 e2) = round_double (m1 * m2) (e1 + e2)"
| "d_mul NaN _ = NaN"
| "d_mul _ NaN = NaN"
| "d_mul (Infty s) (Infty t) = Infty (s \<noteq> t)"
| "d_mul (Infty s) (Fin m e) = (if m = 0 then NaN else Infty (s \<noteq> (m < 0)))"
| "d_mul (Fin m e) (Infty s) = (if m = 0 then NaN else Infty (s \<noteq> (m < 0)))"

fun d_add :: "double \<Rightarrow> double \<Rightarrow> double" where
  "d_add (Fin m1 e1) (Fin m2 e2) = aligned_sum m1 e1 m2 e2 (min e1 e2)"
| "d_add NaN _ = NaN"
| "d_add _ NaN = NaN"
| "d_add (Infty s) (Infty t) = (if s = t then Infty s else NaN)"
| "d_add (Infty s) (Fin m e) = Infty s"
| "d_add (Fin m e) (Infty s) = Infty s"

fun d_neg :: "double \<Rightarrow> double" where
  "d_neg (Fin m e) = Fin (- m) e"
| "d_neg (Infty s) = Infty (\<not> s)"
| "d_neg NaN = NaN"

definition d_sub :: "double \<Rightarrow> double \<Rightarrow> double" where
  "d_sub a c = d_add a (d_neg c)"

fun d_less :: "double \<Rightarrow> double \<Rightarrow> bool" where
  "d_less (Fin m1 e1) (Fin m2 e2) =
     (m1 * 2 ^ nat (e1 - min e1 e2) < m2 * 2 ^ nat (e2 - min e1 e2))"
| "d_less NaN _ = False"
| "d_less _ NaN = False"
| "d_less (Infty s) (Infty t) = (s \<and> \<not> t)"
| "d_less (Infty s) (Fin m e) = s"
| "d_less (Fin m e) (Infty s) = (\<not> s)"

fun d_ge :: "double \<Rightarrow> double \<Rightarrow> bool" where
  "d_ge (Fin m1 e1) (Fin m2 e2) =
     (m1 * 2 ^ nat (e1 - min e1 e2) \<ge> m2 * 2 ^ nat (e2 - min e1 e2))"
| "d_ge NaN _ = False"
| "d_ge _ NaN = False"
| "d_ge (Infty s) (Infty t) = (if s then t else True)"
| "d_ge (Infty s) (Fin m e) = (\<not> s)"
| "d_ge (Fin m e) (Infty s) = s"

text \<open>
  Division rounds the quotient of the significands, computed to at least 55 digits with
  one more digit that records whether anything was left over.
\<close>

definition div_shift :: "nat \<Rightarrow> nat \<Rightarrow> nat" where
  "div_shift n d = nat (max 0 (55 + int (bit_length d) - int (bit_length n)))"

definition sticky_quotient :: "int \<Rightarrow> int \<Rightarrow> int" where
  "sticky_quotient n d = 2 * (n div d) + (if n mod d = 0 then 0 else 1)"

fun d_div :: "double \<Rightarrow> double \<Rightarrow> double" where
  "d_div (Fin m1 e1) (Fin m2 e2) =
     (if m2 = 0 then (if m1 = 0 then NaN else Infty (m1 < 0))
      else round_double
             (sgn m1 * sgn m2 * sticky_quotient (\<bar>m1\<bar> * 2 ^ div_shift (nat \<bar>m1\<bar>) (nat \<bar>m2\<bar>)) \<bar>m2\<bar>)
             (e1 - e2 - int (div_shift (nat \<bar>m1\<bar>) (nat \<bar>m2\<bar>)) - 1))"
| "d_div NaN _ = NaN"
| "d_div _ NaN = NaN"
| "d_div (Infty s) (Infty t) = NaN"
| "d_div (Infty s) (Fin m e) = Infty (s \<noteq> (m < 0))"
| "d_div (Fin m e) (Infty s) = Fin 0 0"

text \<open>
  Conversion from \<^verbatim>\<open>int\<close>, and the cast \<^verbatim>\<open>(int)d\<close>: truncation toward zero, with the
  x86 result \<open>-2\<^sup>3\<^sup>1\<close> for a value that does not fit.
\<close>

definition d_of_int :: "int \<Rightarrow> double" where
  "d_of_int i = round_double i 0"

fun d_to_int :: "double \<Rightarrow> int" where
  "d_to_int (Fin m e) =
     (if \<bar>m\<bar> * 2 ^ nat e div 2 ^ nat (- e) < 2 ^ 31
      then sgn m * (\<bar>m\<bar> * 2 ^ nat e div 2 ^ nat (- e))
      else - (2 ^ 31))"
| "d_to_int (Infty s) = - (2 ^ 31)"
| "d_to_int NaN = - (2 ^ 31)"

subsection \<open>The scalar loop in binary64\<close>

function escape_loop64 :: "nat \<Rightarrow> double \<Rightarrow> double \<Rightarrow> nat \<Rightarrow> double \<Rightarrow> double \<Rightarrow> nat" where
  "escape_loop64 max_iter cr ci n zr zi =
     (if n < max_iter then
        (let zr2 = d_mul zr zr; zi2 = d_mul zi zi
         in if d_ge (d_add zr2 zi2) (Fin 4 0) then n
            else escape_loop64 max_iter cr ci (n + 1) (d_add (d_sub zr2 zi2) cr)
                   (d_add (d_mul (d_mul (Fin 2 0) zr) zi) ci))
      else n)"
  by pat_completeness auto
termination
  apply (relation "measure (\<lambda>(max_iter, cr, ci, n, zr, zi). max_iter - n)")
   apply (rule wf_measure)
  apply (simp only: in_measure prod.case)
  done

declare escape_loop64.simps [simp del]

definition scalar_kernel64 :: "double \<Rightarrow> double \<Rightarrow> nat" where
  "scalar_kernel64 cr ci = escape_loop64 MAX_ITERATIONS cr ci 0 (Fin 0 0) (Fin 0 0)"

subsection \<open>The SSE2 loop in binary64\<close>

type_synonym m128d64 = "double \<times> double"

definition mm64_set1_pd :: "double \<Rightarrow> m128d64" where
  "mm64_set1_pd a = (a, a)"

definition mm64_set_pd :: "double \<Rightarrow> double \<Rightarrow> m128d64" where
  "mm64_set_pd e1 e0 = (e0, e1)"

definition mm64_setzero_pd :: m128d64 where
  "mm64_setzero_pd = (Fin 0 0, Fin 0 0)"

definition mm64_mul_pd :: "m128d64 \<Rightarrow> m128d64 \<Rightarrow> m128d64" where
  "mm64_mul_pd a c = (d_mul (fst a) (fst c), d_mul (snd a) (snd c))"

definition mm64_add_pd :: "m128d64 \<Rightarrow> m128d64 \<Rightarrow> m128d64" where
  "mm64_add_pd a c = (d_add (fst a) (fst c), d_add (snd a) (snd c))"

definition mm64_sub_pd :: "m128d64 \<Rightarrow> m128d64 \<Rightarrow> m128d64" where
  "mm64_sub_pd a c = (d_sub (fst a) (fst c), d_sub (snd a) (snd c))"

definition mm64_cmplt_pd :: "m128d64 \<Rightarrow> m128d64 \<Rightarrow> bool \<times> bool" where
  "mm64_cmplt_pd a c = (d_less (fst a) (fst c), d_less (snd a) (snd c))"

definition mm64_and_pd :: "bool \<times> bool \<Rightarrow> m128d64 \<Rightarrow> m128d64" where
  "mm64_and_pd m a = (if fst m then fst a else Fin 0 0, if snd m then snd a else Fin 0 0)"

function simd_loop64 ::
  "nat \<Rightarrow> m128d64 \<Rightarrow> m128d64 \<Rightarrow> nat \<Rightarrow> m128d64 \<Rightarrow> m128d64 \<Rightarrow> m128d64 \<Rightarrow> m128d64" where
  "simd_loop64 max_iter cr ci i zr zi iterations =
     (if i < max_iter then
        (let zr2 = mm64_mul_pd zr zr;
             zi2 = mm64_mul_pd zi zi;
             mag2 = mm64_add_pd zr2 zi2;
             escape_mask = mm64_cmplt_pd mag2 (mm64_set1_pd (Fin 4 0))
         in if mm_movemask_pd escape_mask = 0 then iterations
            else
              (let iterations' = mm64_add_pd iterations (mm64_and_pd escape_mask (mm64_set1_pd (Fin 1 0)));
                   zri = mm64_mul_pd zr zi;
                   zr_temp = mm64_add_pd (mm64_sub_pd zr2 zi2) cr;
                   zi' = mm64_add_pd (mm64_mul_pd zri (mm64_set1_pd (Fin 2 0))) ci
               in simd_loop64 max_iter cr ci (i + 1) zr_temp zi' iterations'))
      else iterations)"
  by pat_completeness auto
termination
  apply (relation "measure (\<lambda>(max_iter, cr, ci, i, zr, zi, iterations). max_iter - i)")
   apply (rule wf_measure)
  apply (simp only: in_measure prod.case)
  done

declare simd_loop64.simps [simp del]

definition vector_kernel64 :: "double \<Rightarrow> double \<Rightarrow> double \<Rightarrow> int \<times> int" where
  "vector_kernel64 cr_base0 cr_base1 ci_base =
     (let n_values = simd_loop64 MAX_ITERATIONS (mm64_set_pd cr_base1 cr_base0) (mm64_set1_pd ci_base) 0
                        mm64_setzero_pd mm64_setzero_pd mm64_setzero_pd
      in (d_to_int (fst n_values), d_to_int (snd n_values)))"

subsection \<open>The main loop in binary64\<close>

text \<open>
  The state \<^verbatim>\<open>main\<close> keeps across frames, the click handler, and one pass of
  \<^verbatim>\<open>while (is_running)\<close>: the polled left clicks in order, then
  \<^verbatim>\<open>zoom *= zoom_speed\<close> before the frame is drawn. \<open>zoom_speed64\<close> is the double nearest
  to \<open>0.985\<close>, and the centre of \<open>initial_view64\<close> the doubles nearest to the two
  literals of \<^verbatim>\<open>main\<close>.
\<close>

record View64 =
  center_r64 :: double
  center_i64 :: double
  zoom64 :: double

definition zoom_speed64 :: double where
  "zoom_speed64 = Fin 8872091265919877 (- 53)"

definition initial_view64 :: View64 where
  "initial_view64 =
     \<lparr>center_r64 = Fin (- 6698148665113721) (- 53), center_i64 = Fin 4749528744455223 (- 55),
      zoom64 = Fin 1 0\<rparr>"

definition left_click64 :: "nat \<Rightarrow> nat \<Rightarrow> int \<Rightarrow> int \<Rightarrow> View64 \<Rightarrow> View64" where
  "left_click64 SCREEN_WIDTH SCREEN_HEIGHT button_x button_y v =
     (let ar = d_div (d_of_int (int SCREEN_WIDTH)) (d_of_int (int SCREEN_HEIGHT));
          mouse_r = d_add (center_r64 v)
                      (d_div (d_mul (d_sub (d_of_int button_x) (d_div (d_of_int (int SCREEN_WIDTH)) (Fin 2 0)))
                                    (d_mul (d_mul (Fin 4 0) ar) (zoom64 v)))
                             (d_of_int (int SCREEN_WIDTH)));
          mouse_i = d_add (center_i64 v)
                      (d_div (d_mul (d_sub (d_of_int button_y) (d_div (d_of_int (int SCREEN_HEIGHT)) (Fin 2 0)))
                                    (d_mul (Fin 4 0) (zoom64 v)))
                             (d_of_int (int SCREEN_WIDTH)))
      in v\<lparr>center_r64 := mouse_r, center_i64 := mouse_i\<rparr>)"

definition frame64 :: "nat \<Rightarrow> nat \<Rightarrow> (int \<times> int) list \<Rightarrow> View64 \<Rightarrow> View64" where
  "frame64 SCREEN_WIDTH SCREEN_HEIGHT clicks v =
     (let v' = fold (\<lambda>(button_x, button_y). left_click64 SCREEN_WIDTH SCREEN_HEIGHT button_x button_y) clicks v
      in v'\<lparr>zoom64 := d_mul (zoom64 v') zoom_speed64\<rparr>)"

definition run64 :: "nat \<Rightarrow> nat \<Rightarrow> (int \<times> int) list list \<Rightarrow> View64" where
  "run64 SCREEN_WIDTH SCREEN_HEIGHT frames = fold (frame64 SCREEN_WIDTH SCREEN_HEIGHT) frames initial_view64"

text \<open>
  The values \<open>zoom\<close> takes: a positive significand of at most 54 digits with the last
  place between \<open>2\<^sup>-\<^sup>1\<^sup>0\<^sup>7\<^sup>4\<close> and 1; \<open>scaled\<close> counts such a value in units of
  \<open>2\<^sup>-\<^sup>1\<^sup>0\<^sup>7\<^sup>4\<close>.
\<close>

definition zoom_ok :: "double \<Rightarrow> bool" where
  "zoom_ok z = (case z of Fin m e \<Rightarrow> 0 < m \<and> m \<le> 2 ^ 53 \<and> - 1074 \<le> e \<and> e \<le> 0 | Infty s \<Rightarrow> False | NaN \<Rightarrow> False)"

definition scaled :: "double \<Rightarrow> nat" where
  "scaled z = (case z of Fin m e \<Rightarrow> nat (m * 2 ^ nat (e + 1074)) | Infty s \<Rightarrow> 0 | NaN \<Rightarrow> 0)"

section \<open>Properties\<close>

subsection \<open>The origin never escapes\<close>

lemma escape_loop_origin:
  "n \<le> max_iter \<Longrightarrow> escape_loop max_iter 0 0 n 0 0 = max_iter"
proof (induction "max_iter - n" arbitrary: n)
  case 0
  then have "n = max_iter" by simp
  then show ?case by (simp add: escape_loop.simps)
next
  case (Suc k)
  then have lt: "n < max_iter" and le: "n + 1 \<le> max_iter" and k: "k = max_iter - (n + 1)"
    by simp_all
  have "escape_loop max_iter 0 0 n 0 0 = escape_loop max_iter 0 0 (n + 1) 0 0"
    using lt by (subst escape_loop.simps) simp
  also have "\<dots> = max_iter"
    using Suc.hyps(1) [OF k le] .
  finally show ?case .
qed

text \<open>
  C8. \<open>escape_iterations 0 0 max_iter\<close> is exactly \<open>max_iter\<close>: with \<open>cr = ci = 0\<close> the
  iterate stays at zero, the test \<open>zr\<^sup>2 + zi\<^sup>2 \<ge> 4\<close> never fires and the loop runs to its
  bound, for every bound.
\<close>

theorem escape_iterations_origin:
  "escape_iterations 0 0 max_iter = max_iter"
  unfolding escape_iterations_def by (rule escape_loop_origin) simp

subsection \<open>Points on or outside the circle of radius 2\<close>

lemma escape_loop_outside:
  assumes "4 \<le> cr * cr + ci * ci" and "2 \<le> max_iter"
  shows "escape_loop max_iter cr ci 0 0 0 = 1"
proof -
  have "escape_loop max_iter cr ci 0 0 0 = escape_loop max_iter cr ci 1 cr ci"
    using assms(2) by (subst escape_loop.simps) simp
  also have "\<dots> = 1"
    using assms by (subst escape_loop.simps) simp
  finally show ?thesis .
qed

text \<open>
  C5, as the code has it. For every \<open>(cr, ci)\<close> with \<open>cr\<^sup>2 + ci\<^sup>2 \<ge> 4\<close> (in particular
  \<open>> 4\<close>) and every bound \<open>max_iter \<ge> 2\<close> (the program's is 255), the loop returns 1,
  which is below the bound: pass 0 tests \<open>z = 0\<close> and moves to \<open>z = c\<close>, pass 1 detects
  the escape and returns the counter as it stands. In particular the point \<open>(2, 0)\<close>
  gives 1.
\<close>

theorem escape_iterations_outside:
  "4 \<le> cr * cr + ci * ci \<Longrightarrow> 2 \<le> max_iter \<Longrightarrow>
     escape_iterations cr ci max_iter = 1 \<and> escape_iterations cr ci max_iter < max_iter"
  unfolding escape_iterations_def by (simp add: escape_loop_outside)

theorem escape_iterations_outside_witness:
  "(4::real) \<le> 2 * 2 + 0 * 0 \<and> (2::nat) \<le> 255 \<and>
     escape_iterations 2 0 255 = 1 \<and> escape_iterations 2 0 255 < 255"
  using escape_iterations_outside [of 2 0 255] by simp

text \<open>
  C5 as the specification words it asks for \<open>escape_iterations 2 0 max_iter = 0\<close>;
  with the program's bound the loop returns 1 there.
\<close>

theorem escape_iterations_2_0_counterexample:
  "escape_iterations 2 0 MAX_ITERATIONS \<noteq> 0"
  unfolding escape_iterations_def MAX_ITERATIONS_def
  by (simp add: escape_loop_outside)

subsection \<open>The two kernels in exact arithmetic\<close>

lemma zc_0: "zc cr ci 0 = 0"
  by (simp add: zc_def complex_eq_iff)

lemma zc_Suc: "zc cr ci (Suc k) = zc cr ci k * zc cr ci k + Complex cr ci"
  by (simp add: zc_def complex_eq_iff Let_def)

lemma escaped_cmod: "escaped cr ci k \<longleftrightarrow> 2 \<le> cmod (zc cr ci k)"
proof -
  have "cmod (zc cr ci k) ^ 2 = fst (orbit cr ci k) * fst (orbit cr ci k) + snd (orbit cr ci k) * snd (orbit cr ci k)"
    unfolding cmod_power2 by (simp add: zc_def power2_eq_square)
  moreover have "2 \<le> cmod (zc cr ci k) \<longleftrightarrow> 2 ^ 2 \<le> cmod (zc cr ci k) ^ 2"
    using abs_le_square_iff [of 2 "cmod (zc cr ci k)"] by simp
  ultimately show ?thesis by (simp add: escaped_def)
qed

lemma cmod_step_grows:
  assumes "2 \<le> cmod z" and "cmod c \<le> cmod z"
  shows "cmod z \<le> cmod (z * z + c)"
proof -
  have "cmod (z * z) - cmod c \<le> cmod (z * z + c)"
    using norm_diff_ineq [of "z * z" c] by simp
  moreover have "cmod (z * z) = cmod z * cmod z"
    by (simp add: norm_mult)
  moreover have "2 * cmod z \<le> cmod z * cmod z"
    using assms(1) by (simp add: mult_right_mono)
  ultimately show ?thesis using assms(2) by linarith
qed

lemma zc_dominates_c:
  assumes "2 < cmod (Complex cr ci)"
  shows "cmod (Complex cr ci) \<le> cmod (zc cr ci (Suc k))"
proof (induction k)
  case 0
  show ?case by (simp add: zc_Suc zc_0)
next
  case (Suc k)
  have "cmod (zc cr ci (Suc k)) \<le> cmod (zc cr ci (Suc (Suc k)))"
    unfolding zc_Suc [of cr ci "Suc k"]
    using Suc assms by (intro cmod_step_grows) linarith+
  with Suc show ?case by linarith
qed

lemma escaped_Suc:
  assumes "escaped cr ci k"
  shows "escaped cr ci (Suc k)"
proof -
  from assms have big: "2 \<le> cmod (zc cr ci k)" by (simp add: escaped_cmod)
  have "k \<noteq> 0"
  proof
    assume "k = 0"
    with big show False by (simp add: zc_0)
  qed
  then obtain j where k: "k = Suc j" by (cases k) auto
  have "cmod (Complex cr ci) \<le> cmod (zc cr ci k)"
  proof (cases "2 < cmod (Complex cr ci)")
    case True
    then show ?thesis unfolding k by (rule zc_dominates_c)
  next
    case False
    with big show ?thesis by linarith
  qed
  with big have "cmod (zc cr ci k) \<le> cmod (zc cr ci (Suc k))"
    unfolding zc_Suc by (rule cmod_step_grows)
  with big show ?thesis by (simp add: escaped_cmod)
qed

lemma escaped_mono: "escaped cr ci k \<Longrightarrow> k \<le> j \<Longrightarrow> escaped cr ci j"
  by (induction j) (auto simp: le_Suc_eq escaped_Suc)

lemma escape_loop_orbit:
  assumes "n \<le> max_iter" and "\<forall>j<n. \<not> escaped cr ci j"
  shows "n \<le> escape_loop max_iter cr ci n (fst (orbit cr ci n)) (snd (orbit cr ci n))
       \<and> escape_loop max_iter cr ci n (fst (orbit cr ci n)) (snd (orbit cr ci n)) \<le> max_iter
       \<and> (\<forall>j < escape_loop max_iter cr ci n (fst (orbit cr ci n)) (snd (orbit cr ci n)). \<not> escaped cr ci j)
       \<and> (escape_loop max_iter cr ci n (fst (orbit cr ci n)) (snd (orbit cr ci n)) < max_iter \<longrightarrow>
            escaped cr ci (escape_loop max_iter cr ci n (fst (orbit cr ci n)) (snd (orbit cr ci n))))"
  using assms
proof (induction "max_iter - n" arbitrary: n)
  case 0
  then have "n = max_iter" by simp
  with 0 show ?case by (simp add: escape_loop.simps)
next
  case (Suc d)
  then have lt: "n < max_iter" by simp
  show ?case
  proof (cases "escaped cr ci n")
    case True
    then have "escape_loop max_iter cr ci n (fst (orbit cr ci n)) (snd (orbit cr ci n)) = n"
      using lt by (subst escape_loop.simps) (simp add: escaped_def)
    with True lt Suc.prems show ?thesis by simp
  next
    case False
    then have step: "escape_loop max_iter cr ci n (fst (orbit cr ci n)) (snd (orbit cr ci n))
        = escape_loop max_iter cr ci (Suc n) (fst (orbit cr ci (Suc n))) (snd (orbit cr ci (Suc n)))"
      using lt by (subst escape_loop.simps) (simp add: escaped_def Let_def)
    have "\<forall>j<Suc n. \<not> escaped cr ci j"
      using False Suc.prems(2) by (auto simp: less_Suc_eq)
    moreover have "d = max_iter - Suc n" "Suc n \<le> max_iter"
      using Suc.hyps(2) lt by simp_all
    ultimately have IH: "Suc n \<le> escape_loop max_iter cr ci (Suc n) (fst (orbit cr ci (Suc n))) (snd (orbit cr ci (Suc n)))
       \<and> escape_loop max_iter cr ci (Suc n) (fst (orbit cr ci (Suc n))) (snd (orbit cr ci (Suc n))) \<le> max_iter
       \<and> (\<forall>j < escape_loop max_iter cr ci (Suc n) (fst (orbit cr ci (Suc n))) (snd (orbit cr ci (Suc n))). \<not> escaped cr ci j)
       \<and> (escape_loop max_iter cr ci (Suc n) (fst (orbit cr ci (Suc n))) (snd (orbit cr ci (Suc n))) < max_iter \<longrightarrow>
            escaped cr ci (escape_loop max_iter cr ci (Suc n) (fst (orbit cr ci (Suc n))) (snd (orbit cr ci (Suc n)))))"
      using Suc.hyps(1) by blast
    show ?thesis unfolding step using IH by simp
  qed
qed

lemma escape_iterations_le: "escape_iterations cr ci max_iter \<le> max_iter"
  using escape_loop_orbit [of 0 max_iter cr ci] by (simp add: escape_iterations_def)

lemma escape_iterations_escaped_iff:
  assumes "i < max_iter"
  shows "escaped cr ci i \<longleftrightarrow> escape_iterations cr ci max_iter \<le> i"
proof
  assume "escaped cr ci i"
  then show "escape_iterations cr ci max_iter \<le> i"
    using escape_loop_orbit [of 0 max_iter cr ci]
    by (force simp add: escape_iterations_def not_less [symmetric])
next
  assume le: "escape_iterations cr ci max_iter \<le> i"
  with assms have "escape_iterations cr ci max_iter < max_iter" by simp
  then have "escaped cr ci (escape_iterations cr ci max_iter)"
    using escape_loop_orbit [of 0 max_iter cr ci] by (simp add: escape_iterations_def)
  then show "escaped cr ci i" using le by (rule escaped_mono)
qed

lemmas mm_defs = mm_set1_pd_def mm_set_pd_def mm_setzero_pd_def mm_mul_pd_def mm_add_pd_def
  mm_sub_pd_def mm_cmplt_pd_def mm_movemask_pd_def mm_and_pd_def

lemma count_step: "real (min i N) + (if i < N then 1 else 0) = real (min (Suc i) N)"
  by (simp add: min_def)

lemma simd_loop_orbit:
  assumes "i \<le> max_iter"
  shows "simd_loop max_iter (cr0, cr1) (ci, ci) i
           (fst (orbit cr0 ci i), fst (orbit cr1 ci i))
           (snd (orbit cr0 ci i), snd (orbit cr1 ci i))
           (real (min i (escape_iterations cr0 ci max_iter)),
            real (min i (escape_iterations cr1 ci max_iter)))
         = (real (escape_iterations cr0 ci max_iter), real (escape_iterations cr1 ci max_iter))"
  using assms
proof (induction "max_iter - i" arbitrary: i)
  case 0
  then have "i = max_iter" by simp
  then show ?case
    by (subst simd_loop.simps) (simp add: escape_iterations_le min_absorb2)
next
  case (Suc d)
  then have lt: "i < max_iter" by simp
  have m0: "fst (orbit cr0 ci i) * fst (orbit cr0 ci i) + snd (orbit cr0 ci i) * snd (orbit cr0 ci i) < 4
              \<longleftrightarrow> i < escape_iterations cr0 ci max_iter"
    using escape_iterations_escaped_iff [OF lt, of cr0 ci] by (auto simp: escaped_def)
  have m1: "fst (orbit cr1 ci i) * fst (orbit cr1 ci i) + snd (orbit cr1 ci i) * snd (orbit cr1 ci i) < 4
              \<longleftrightarrow> i < escape_iterations cr1 ci max_iter"
    using escape_iterations_escaped_iff [OF lt, of cr1 ci] by (auto simp: escaped_def)
  show ?case
  proof (cases "i < escape_iterations cr0 ci max_iter \<or> i < escape_iterations cr1 ci max_iter")
    case False
    then show ?thesis
      using lt by (subst simd_loop.simps) (simp add: mm_defs Let_def m0 m1 min_absorb2)
  next
    case True
    have d: "d = max_iter - Suc i" and le: "Suc i \<le> max_iter"
      using Suc.hyps(2) lt by simp_all
    have "simd_loop max_iter (cr0, cr1) (ci, ci) i
           (fst (orbit cr0 ci i), fst (orbit cr1 ci i))
           (snd (orbit cr0 ci i), snd (orbit cr1 ci i))
           (real (min i (escape_iterations cr0 ci max_iter)),
            real (min i (escape_iterations cr1 ci max_iter)))
        = simd_loop max_iter (cr0, cr1) (ci, ci) (Suc i)
           (fst (orbit cr0 ci (Suc i)), fst (orbit cr1 ci (Suc i)))
           (snd (orbit cr0 ci (Suc i)), snd (orbit cr1 ci (Suc i)))
           (real (min i (escape_iterations cr0 ci max_iter)) + (if i < escape_iterations cr0 ci max_iter then 1 else 0),
            real (min i (escape_iterations cr1 ci max_iter)) + (if i < escape_iterations cr1 ci max_iter then 1 else 0))"
      using lt True
      by (subst simd_loop.simps) (auto simp add: mm_defs Let_def m0 m1 mult.commute mult.left_commute)
    also have "\<dots> = (real (escape_iterations cr0 ci max_iter), real (escape_iterations cr1 ci max_iter))"
      unfolding count_step by (rule Suc.hyps(1) [OF d le])
    finally show ?thesis .
  qed
qed

text \<open>
  With exact arithmetic each lane of the SSE2 kernel ends with the count of the scalar
  loop: a lane that has left the disc of radius 2 never comes back, so it makes no
  difference that the mask is computed afresh in every pass.
\<close>

lemma vector_kernel_exact:
  "vector_kernel cr0 cr1 ci = (int (scalar_kernel cr0 ci), int (scalar_kernel cr1 ci))"
proof -
  have "simd_loop MAX_ITERATIONS (cr0, cr1) (ci, ci) 0 (0, 0) (0, 0) (0, 0)
          = (real (escape_iterations cr0 ci MAX_ITERATIONS),
             real (escape_iterations cr1 ci MAX_ITERATIONS))"
    using simd_loop_orbit [of 0 MAX_ITERATIONS cr0 cr1 ci] by simp
  then show ?thesis
    by (simp add: vector_kernel_def scalar_kernel_def mm_defs c_int_def)
qed

subsection \<open>The rows of a frame\<close>

lemma thread_rows_union:
  "(\<Union>tid \<in> {0 ..< n}. {k * tid ..< k * (tid + 1)}) = {0 ..< k * (n::nat)}"
proof (induction n)
  case 0
  show ?case by simp
next
  case (Suc n)
  have "(\<Union>tid \<in> {0 ..< Suc n}. {k * tid ..< k * (tid + 1)})
          = (\<Union>tid \<in> {0 ..< n}. {k * tid ..< k * (tid + 1)}) \<union> {k * n ..< k * (n + 1)}"
    by (simp add: atLeast0_lessThan_Suc Un_commute)
  also have "\<dots> = {0 ..< k * n} \<union> {k * n ..< k * (n + 1)}"
    by (simp only: Suc.IH)
  also have "\<dots> = {0 ..< k * (n + 1)}"
    by (rule ivl_disj_un_two) simp_all
  finally show ?case by simp
qed

lemma frame_rows_eq:
  "frame_rows SCREEN_HEIGHT nthreads = {0 ..< (SCREEN_HEIGHT div nthreads) * nthreads}"
  unfolding frame_rows_def thread_rows_def start_y_def end_y_def by (rule thread_rows_union)

lemma thread_rows_disjoint:
  assumes "i \<noteq> j"
  shows "thread_rows SCREEN_HEIGHT nthreads i \<inter> thread_rows SCREEN_HEIGHT nthreads j = {}"
proof -
  have aux: "{k * a ..< k * (a + 1)} \<inter> {k * c ..< k * (c + 1)} = {}" if "a < c" for a c k :: nat
  proof -
    from that have "a + 1 \<le> c" by simp
    then have "k * (a + 1) \<le> k * c" by (rule mult_le_mono2)
    then show ?thesis by auto
  qed
  from assms consider "i < j" | "j < i" by (cases i j rule: linorder_cases) auto
  then show ?thesis
  proof cases
    case 1
    then show ?thesis unfolding thread_rows_def start_y_def end_y_def by (rule aux)
  next
    case 2
    then show ?thesis unfolding thread_rows_def start_y_def end_y_def
      using aux [of j i] by (simp add: Int_commute)
  qed
qed

lemma frame_rows_600_4: "frame_rows 600 4 = {0 ..< 600}"
  by (simp add: frame_rows_eq)

text \<open>
  C3, at a height the thread count does not divide. On a display 1080 rows high with 16
  threads every thread takes \<open>1080 div 16 = 67\<close> rows, the threads together render the
  rows \<open>0, \<dots>, 1071\<close>, and the rows \<open>1072, \<dots>, 1079\<close> belong to no thread: the ranges
  are pairwise disjoint (\<open>thread_rows_disjoint\<close>) but their union is not \<open>[0, height)\<close>.
\<close>

theorem frame_rows_1080_16:
  "frame_rows 1080 16 = {0 ..< 1072} \<and> frame_rows 1080 16 \<noteq> {0 ..< 1080}"
proof -
  have eq: "frame_rows 1080 16 = {0 ..< 1072}"
    by (simp add: frame_rows_eq)
  have "(1072::nat) \<in> {0 ..< 1080}" and "(1072::nat) \<notin> {0 ..< 1072}"
    by simp_all
  then have "{0 ..< 1072} \<noteq> {0 ..< (1080::nat)}" by blast
  with eq show ?thesis by simp
qed

subsection \<open>The mouse click\<close>

lemma left_click_zoom: "zoom (left_click SCREEN_WIDTH SCREEN_HEIGHT button_x button_y v) = zoom v"
  by (simp add: left_click_def Let_def)



subsection \<open>The pixel mapping\<close>




subsection \<open>Colours\<close>

lemma channel_range:
  "1 \<le> unat (uchar (c_int (sin t * 127 + 128))) \<and> unat (uchar (c_int (sin t * 127 + 128))) \<le> 255"
proof -
  define v where "v = sin t * 127 + 128"
  define j where "j = \<lfloor>v\<rfloor>"
  have "-1 \<le> sin t" and "sin t \<le> 1" by simp_all
  then have lo: "1 \<le> v" and hi: "v \<le> 255" unfolding v_def by linarith+
  have j: "1 \<le> j" "j \<le> 255"
    unfolding j_def using lo hi by (simp_all add: le_floor_iff floor_le_iff)
  have "c_int v = j"
    using lo by (simp add: c_int_def j_def)
  then have "uint (uchar (c_int v)) = j mod 256"
    by (simp add: uchar_def uint_word_of_int)
  also have "\<dots> = j" using j by simp
  finally have "unat (uchar (c_int v)) = nat j"
    by (simp add: unat_eq_nat_uint)
  with j have "1 \<le> unat (uchar (c_int v)) \<and> unat (uchar (c_int v)) \<le> 255"
    by arith
  then show ?thesis unfolding v_def .
qed

text \<open>
  C7. \<open>get_color n\<close> is black for every \<open>n \<ge> MAX_ITERATIONS\<close>, and for \<open>0 \<le> n <
  MAX_ITERATIONS\<close> each of the three channels, \<open>sin(\<dots>) \<cdot> 127 + 128\<close> truncated toward zero
  and stored in an unsigned byte, lies between 1 and 255.
\<close>

theorem get_color_range:
  "(int MAX_ITERATIONS \<le> n \<longrightarrow> get_color n = \<lparr>r = 0, g = 0, b = 0\<rparr>) \<and>
   (0 \<le> n \<and> n < int MAX_ITERATIONS \<longrightarrow>
      1 \<le> unat (r (get_color n)) \<and> unat (r (get_color n)) \<le> 255 \<and>
      1 \<le> unat (g (get_color n)) \<and> unat (g (get_color n)) \<le> 255 \<and>
      1 \<le> unat (b (get_color n)) \<and> unat (b (get_color n)) \<le> 255)"
  using channel_range [of "0.1 * real_of_int n"] channel_range [of "0.1 * real_of_int n + 2"]
    channel_range [of "0.1 * real_of_int n + 4"]
  by (simp add: get_color_def)

theorem get_color_range_witness:
  "int MAX_ITERATIONS \<le> 255 \<and> get_color 255 = \<lparr>r = 0, g = 0, b = 0\<rparr> \<and>
   (0::int) \<le> 0 \<and> 0 < int MAX_ITERATIONS \<and>
   1 \<le> unat (r (get_color 0)) \<and> unat (r (get_color 0)) \<le> 255 \<and>
   1 \<le> unat (g (get_color 0)) \<and> unat (g (get_color 0)) \<le> 255 \<and>
   1 \<le> unat (b (get_color 0)) \<and> unat (b (get_color 0)) \<le> 255"
  using get_color_range [of 255] get_color_range [of 0]
  by (simp add: MAX_ITERATIONS_def)

subsection \<open>The columns a row of the SSE2 path writes\<close>

lemma simd_row_loop_columns:
  "map fst (simd_row_loop SCREEN_WIDTH SCREEN_HEIGHT args ci_base x) = [x ..< SCREEN_WIDTH]"
proof (induction "SCREEN_WIDTH - x" arbitrary: x rule: less_induct)
  case less
  show ?case
  proof (cases "x < SCREEN_WIDTH")
    case False
    then show ?thesis by (subst simd_row_loop.simps) simp
  next
    case True
    then have "map fst (simd_row_loop SCREEN_WIDTH SCREEN_HEIGHT args ci_base (x + 2)) = [x + 2 ..< SCREEN_WIDTH]"
      by (intro less) simp
    then have IH: "map fst (simd_row_loop SCREEN_WIDTH SCREEN_HEIGHT args ci_base (Suc (Suc x)))
                     = [Suc (Suc x) ..< SCREEN_WIDTH]"
      by simp
    show ?thesis
    proof (cases "x + 1 < SCREEN_WIDTH")
      case True
      then have "[x ..< SCREEN_WIDTH] = x # (x + 1) # [x + 2 ..< SCREEN_WIDTH]"
        by (simp add: upt_conv_Cons)
      with True \<open>x < SCREEN_WIDTH\<close> show ?thesis
        by (subst simd_row_loop.simps) (simp add: Let_def IH)
    next
      case False
      with \<open>x < SCREEN_WIDTH\<close> have "[x ..< SCREEN_WIDTH] = [x]" "[x + 2 ..< SCREEN_WIDTH] = []"
        by (simp_all add: upt_conv_Cons)
      with False \<open>x < SCREEN_WIDTH\<close> show ?thesis
        by (subst simd_row_loop.simps) (simp add: Let_def IH)
    qed
  qed
qed

text \<open>
  C9. For every frame width, odd ones included, the stores of one row of the SSE2 path
  go to the columns \<open>0, 1, \<dots>, width - 1\<close>, in this order and once each; so every
  store has a column index below \<open>width\<close>, and for an odd width the result of the
  second lane of the last pair is not stored.
\<close>

theorem simd_row_columns:
  "map fst (simd_row SCREEN_WIDTH SCREEN_HEIGHT args y) = [0 ..< SCREEN_WIDTH] \<and>
   (\<forall>w \<in> set (simd_row SCREEN_WIDTH SCREEN_HEIGHT args y). fst w < SCREEN_WIDTH)"
proof -
  have cols: "map fst (simd_row SCREEN_WIDTH SCREEN_HEIGHT args y) = [0 ..< SCREEN_WIDTH]"
    unfolding simd_row_def by (rule simd_row_loop_columns)
  have "fst w < SCREEN_WIDTH" if "w \<in> set (simd_row SCREEN_WIDTH SCREEN_HEIGHT args y)" for w
  proof -
    from that have "fst w \<in> set (map fst (simd_row SCREEN_WIDTH SCREEN_HEIGHT args y))"
      by simp
    then show ?thesis unfolding cols by simp
  qed
  with cols show ?thesis by blast
qed

lemma simd_row_bulb:
  "simd_row 3 2 bulb_view 0 = [(0, 0xFF000000), (1, 0xFF000000), (2, 0xFF000000)]"
proof -
  have pix: "pixel_ci 3 2 bulb_view 0 = - (1 / 75)" "pixel_cr 3 2 bulb_view 0 = - (103 / 100)"
    "pixel_cr 3 2 bulb_view (Suc 0) = - (101 / 100)" "pixel_cr 3 2 bulb_view 2 = - (99 / 100)"
    "pixel_cr 3 2 bulb_view 3 = - (97 / 100)"
    by (simp_all add: pixel_ci_def pixel_cr_def x_scale_def y_scale_def aspect_ratio_def bulb_view_def)
  have chk: "periodicity_check (- (103 / 100)) (- (1 / 75))" "periodicity_check (- (101 / 100)) (- (1 / 75))"
    "periodicity_check (- (99 / 100)) (- (1 / 75))" "periodicity_check (- (97 / 100)) (- (1 / 75))"
    by (simp_all add: periodicity_check_def)
  have "simd_row_loop 3 2 bulb_view (- (1 / 75)) 4 = []"
    by (subst simd_row_loop.simps) simp
  then have "simd_row_loop 3 2 bulb_view (- (1 / 75)) 2 = [(2, 0xFF000000)]"
    by (subst simd_row_loop.simps) (simp add: pix chk Let_def)
  then have "simd_row_loop 3 2 bulb_view (- (1 / 75)) 0 = [(0, 0xFF000000), (1, 0xFF000000), (2, 0xFF000000)]"
    by (subst simd_row_loop.simps) (simp add: pix chk Let_def numeral_2_eq_2 [symmetric])
  then show ?thesis by (simp add: simd_row_def pix)
qed

lemma render_thread_in_bounds:
  assumes "(y, x, p) \<in> set (render_thread SCREEN_WIDTH SCREEN_HEIGHT args)"
  shows "y \<in> thread_rows SCREEN_HEIGHT (num_threads args) (thread_id args) \<and> x < SCREEN_WIDTH"
proof -
  from assms have y: "y \<in> thread_rows SCREEN_HEIGHT (num_threads args) (thread_id args)"
    and "(x, p) \<in> set (simd_row SCREEN_WIDTH SCREEN_HEIGHT args y)"
    by (auto simp: render_thread_def thread_rows_def)
  then have "x \<in> set (map fst (simd_row SCREEN_WIDTH SCREEN_HEIGHT args y))"
    by force
  then have "x < SCREEN_WIDTH"
    unfolding simd_row_def simd_row_loop_columns by simp
  with y show ?thesis by simp
qed

theorem simd_row_columns_witness:
  "(2, 0xFF000000) \<in> set (simd_row 3 2 bulb_view 0) \<and> fst (2 :: nat, 0xFF000000 :: 32 word) < (3 :: nat)
   \<and> map fst (simd_row 3 2 bulb_view 0) = [0 ..< 3]"
  using simd_row_columns [of 3 2 bulb_view 0] by (simp add: simd_row_bulb)

subsection \<open>Two values of the periodicity check\<close>

lemma periodicity_check_bulb_centre: "periodicity_check (- 1) 0"
  by (simp add: periodicity_check_def)

lemma periodicity_check_far_outside: "\<not> periodicity_check 2 2"
  by (simp add: periodicity_check_def Let_def)

subsection \<open>Evaluating binary64 operations\<close>

lemma bit_length_0 [simp]: "bit_length 0 = 0"
  by (subst bit_length.simps) simp

lemma bit_length_1 [simp]: "bit_length 1 = 1" "bit_length (Suc 0) = 1"
  by (subst bit_length.simps, simp)+

lemma bit_length_numeral [simp]:
  "bit_length (numeral Num.One) = 1"
  "bit_length (numeral (Num.Bit0 k)) = bit_length (numeral k) + 1"
  "bit_length (numeral (Num.Bit1 k)) = bit_length (numeral k) + 1"
  by (subst bit_length.simps, simp)+

lemmas b64_eval = round_double_def round_shift_def pack_def rne_def rne_pick_def aligned_sum_def d_sub_def

lemmas mm64_defs = mm64_set1_pd_def mm64_set_pd_def mm64_setzero_pd_def mm64_mul_pd_def mm64_add_pd_def
  mm64_sub_pd_def mm64_cmplt_pd_def mm64_and_pd_def mm_movemask_pd_def

subsection \<open>The two kernels in binary64\<close>

text \<open>
  C1, at a batch where rounding decides. Take \<open>cr0 = -(2 - 2\<^sup>-\<^sup>5\<^sup>2)\<close>,
  \<open>ci = 7800463371553963 \<cdot> 2\<^sup>-\<^sup>7\<^sup>8\<close> and \<open>cr1 = 1\<close>. For the first point \<open>zr\<^sup>2 + zi\<^sup>2\<close>
  rounds to exactly 4 in pass 1 and to \<open>4 - 2\<^sup>-\<^sup>5\<^sup>1\<close> in pass 2. The scalar loop leaves in
  pass 1 and returns 1. The SSE2 loop goes on, because lane 1 is still inside; it
  computes the mask of lane 0 afresh in pass 2, finds it set and counts that lane a
  second time: lane 0 ends with 2, lane 1 with 2, the count of the scalar loop for
  \<open>(cr1, ci)\<close>.
\<close>

theorem kernels_differ_binary64:
  "scalar_kernel64 (Fin (- 9007199254740991) (- 52)) (Fin 7800463371553963 (- 78)) = 1
   \<and> scalar_kernel64 (Fin 1 0) (Fin 7800463371553963 (- 78)) = 2
   \<and> vector_kernel64 (Fin (- 9007199254740991) (- 52)) (Fin 1 0) (Fin 7800463371553963 (- 78))
       = (2, 2)"
  by (simp add: scalar_kernel64_def vector_kernel64_def MAX_ITERATIONS_def escape_loop64.simps
      simd_loop64.simps b64_eval mm64_defs Let_def)

subsection \<open>Bounds for the rounding\<close>

lemma bit_length_less: "n < 2 ^ bit_length n"
proof (induction n rule: bit_length.induct)
  case (1 n)
  show ?case
  proof (cases "n = 0")
    case True
    then show ?thesis by simp
  next
    case False
    then have IH: "n div 2 < 2 ^ bit_length (n div 2)"
      using 1 by simp
    have bl: "bit_length n = Suc (bit_length (n div 2))"
      using False by (subst bit_length.simps) simp
    have "n < 2 * 2 ^ bit_length (n div 2)"
      using IH by linarith
    then show ?thesis by (simp add: bl)
  qed
qed

lemma bit_length_le: "n < 2 ^ k \<Longrightarrow> bit_length n \<le> k"
proof (induction k arbitrary: n)
  case 0
  then have "n = 0" by simp
  then show ?case by simp
next
  case (Suc k)
  show ?case
  proof (cases "n = 0")
    case True
    then show ?thesis by simp
  next
    case False
    have "n div 2 < 2 ^ k"
      using Suc.prems by simp
    then have "bit_length (n div 2) \<le> k" by (rule Suc.IH)
    moreover have "bit_length n = Suc (bit_length (n div 2))"
      using False by (subst bit_length.simps) simp
    ultimately show ?thesis by simp
  qed
qed

lemma bit_length_gt: "2 ^ k \<le> n \<Longrightarrow> k < bit_length n"
proof (induction k arbitrary: n)
  case 0
  then have "n \<noteq> 0" by simp
  then have "bit_length n = Suc (bit_length (n div 2))"
    by (subst bit_length.simps) simp
  then show ?case by simp
next
  case (Suc k)
  have "0 < (2::nat) ^ Suc k" by simp
  with Suc.prems have "n \<noteq> 0" by linarith
  then have bl: "bit_length n = Suc (bit_length (n div 2))"
    by (subst bit_length.simps) simp
  have "2 ^ k \<le> n div 2"
    using Suc.prems by simp
  then have "k < bit_length (n div 2)" by (rule Suc.IH)
  then show ?case by (simp add: bl)
qed

lemma div_lt:
  assumes "(m::int) < X * 2 ^ s"
  shows "m div 2 ^ s < X"
proof (rule ccontr)
  assume "\<not> m div 2 ^ s < X"
  then have "X \<le> m div 2 ^ s" by simp
  then have "X * 2 ^ s \<le> m div 2 ^ s * 2 ^ s"
    by (simp add: mult_right_mono)
  moreover have "0 \<le> m mod 2 ^ s" by simp
  ultimately have "X * 2 ^ s \<le> m"
    using div_mult_mod_eq [of m "2 ^ s"] by linarith
  with assms show False by simp
qed

lemma div_ge: "(2::int) ^ s \<le> m \<Longrightarrow> 1 \<le> m div 2 ^ s"
  by (simp add: int_one_le_iff_zero_less pos_imp_zdiv_pos_iff)

lemma rne_pick_bounds: "q \<le> rne_pick q rest p \<and> rne_pick q rest p \<le> q + 1"
  by (simp add: rne_pick_def)

lemma rne_le:
  assumes "m < X * 2 ^ s"
  shows "rne m s \<le> X"
proof -
  have "m div 2 ^ s < X"
    using assms by (rule div_lt)
  then show ?thesis
    using rne_pick_bounds [of "m div 2 ^ s" "m mod 2 ^ s" "2 ^ s"] by (simp add: rne_def)
qed

lemma rne_pos:
  assumes "0 < m" and "2 ^ s < 2 * m"
  shows "0 < rne m s"
proof (cases "m < 2 ^ s")
  case True
  with assms have "m div 2 ^ s = 0" "m mod 2 ^ s = m"
    by simp_all
  with assms show ?thesis by (simp add: rne_def rne_pick_def)
next
  case False
  then have "2 ^ s \<le> m" by simp
  then have "1 \<le> m div 2 ^ s"
    by (rule div_ge)
  then show ?thesis
    using rne_pick_bounds [of "m div 2 ^ s" "m mod 2 ^ s" "2 ^ s"] by (simp add: rne_def)
qed

subsection \<open>The zoom over the frames\<close>

lemma zoom_step:
  assumes "zoom_ok z"
  shows "zoom_ok (d_mul z zoom_speed64) \<and> d_ge z (d_mul z zoom_speed64)
         \<and> d_less (Fin 0 0) (d_mul z zoom_speed64)"
proof -
  from assms obtain m e where z: "z = Fin m e" and m: "0 < m" "m \<le> 2 ^ 53"
    and e: "- 1074 \<le> e" "e \<le> 0"
    by (auto simp: zoom_ok_def split: double.splits)
  define C :: int where "C = 8872091265919877"
  define M where "M = m * C"
  define k where "k = int (bit_length (nat \<bar>M\<bar>))"
  define s where "s = max (k - 53) (- 1074 - (e + - 53))"
  have C: "2 ^ 52 < C" "C < 2 ^ 53" by (simp_all add: C_def)
  have Mpos: "0 < M" using m C by (simp add: M_def)
  have CM: "C \<le> M" using m C by (simp add: M_def)
  have Mm: "M < m * 2 ^ 53" using m C by (simp add: M_def)
  have "m * 2 ^ 53 \<le> 2 ^ 53 * (2 ^ 53 :: int)" using m by simp
  with Mm have M106: "M < 2 ^ 106" by simp
  have "nat M < 2 ^ 106" using M106 Mpos by (simp add: nat_less_iff)
  then have k_hi: "k \<le> 106"
    using bit_length_le [of "nat M" 106] Mpos by (simp add: k_def)
  have "2 ^ 52 \<le> nat M" using CM C by (simp add: le_nat_iff)
  then have k_lo: "53 \<le> k"
    using bit_length_gt [of 52 "nat M"] Mpos by (simp add: k_def)
  have "nat M < 2 ^ bit_length (nat M)" by (rule bit_length_less)
  then have Mk: "M < 2 ^ nat k"
    using Mpos by (simp add: k_def nat_less_iff)
  have s: "0 \<le> s" "s \<le> 53" "k - 53 \<le> s" "- 1021 - e \<le> s"
    using k_lo k_hi e by (simp_all add: s_def)
  have res: "d_mul z zoom_speed64 = round_shift M (e - 53) s"
    using Mpos by (simp add: z zoom_speed64_def round_double_def M_def C_def k_def s_def)
  show ?thesis
  proof (cases "s \<le> 0")
    case True
    with s k_lo have s0: "s = 0" and k53: "k = 53" by simp_all
    from Mk k53 have M53: "M < 2 ^ 53" by simp
    have pk: "pack M (e - 53) = Fin M (e - 53)"
      using k53 e Mpos by (simp add: pack_def k_def)
    have "M * 2 ^ nat (e - 53 - min e (e - 53)) \<le> m * 2 ^ nat (e - min e (e - 53))"
      using Mm by (simp add: min_def)
    moreover have r: "d_mul z zoom_speed64 = Fin M (e - 53)"
      using True by (simp add: res round_shift_def pk)
    ultimately show ?thesis
      unfolding r using Mpos M53 s e s0 by (simp add: zoom_ok_def z)
  next
    case False
    then have spos: "0 < s" by simp
    define m' where "m' = rne M (nat s)"
    have "(2::int) ^ nat s \<le> 2 ^ 53"
      using s by (intro power_increasing) simp_all
    with C CM have "2 ^ nat s < 2 * M" by simp
    with Mpos have m'pos: "0 < m'" unfolding m'_def by (rule rne_pos)
    have "nat k \<le> 53 + nat s" using s by simp
    then have "(2::int) ^ nat k \<le> 2 ^ (53 + nat s)"
      by (intro power_increasing) simp_all
    with Mk have "M < 2 ^ 53 * 2 ^ nat s" by (simp add: power_add)
    then have m'hi: "m' \<le> 2 ^ 53" unfolding m'_def by (rule rne_le)
    have "(2::int) ^ 53 = 2 ^ nat (53 - s) * 2 ^ nat s"
      using s spos by (simp add: power_add [symmetric] nat_add_distrib [symmetric])
    with Mm have "M < m * 2 ^ nat (53 - s) * 2 ^ nat s" by (simp add: mult.assoc)
    then have m'le: "m' \<le> m * 2 ^ nat (53 - s)" unfolding m'_def by (rule rne_le)
    have "nat m' < 2 ^ 54" using m'hi m'pos by (simp add: nat_less_iff)
    then have "bit_length (nat m') \<le> 54" by (rule bit_length_le)
    then have pk: "pack m' (e - 53 + s) = Fin m' (e - 53 + s)"
      using e s m'pos by (simp add: pack_def)
    have mn: "min e (e - 53 + s) = e - 53 + s" using s by simp
    have "nat (e - (e - 53 + s)) = nat (53 - s)" by simp
    then have ge: "d_ge (Fin m e) (Fin m' (e - 53 + s))"
      using m'le by (simp add: mn)
    have r: "d_mul z zoom_speed64 = Fin m' (e - 53 + s)"
      using False by (simp add: res round_shift_def pk m'_def [symmetric])
    show ?thesis
      unfolding r using m'pos m'hi e s ge by (simp add: zoom_ok_def z)
  qed
qed


lemma left_click64_zoom:
  "zoom64 (left_click64 SCREEN_WIDTH SCREEN_HEIGHT button_x button_y v) = zoom64 v"
  by (simp add: left_click64_def Let_def)

lemma fold_clicks_zoom:
  "zoom64 (fold (\<lambda>(button_x, button_y). left_click64 SCREEN_WIDTH SCREEN_HEIGHT button_x button_y) clicks v)
     = zoom64 v"
  by (induction clicks arbitrary: v) (auto simp: left_click64_zoom)

lemma frame64_zoom:
  "zoom64 (frame64 SCREEN_WIDTH SCREEN_HEIGHT clicks v) = d_mul (zoom64 v) zoom_speed64"
  by (simp add: frame64_def Let_def fold_clicks_zoom)

lemma run64_snoc:
  "run64 SCREEN_WIDTH SCREEN_HEIGHT (frames @ [clicks])
     = frame64 SCREEN_WIDTH SCREEN_HEIGHT clicks (run64 SCREEN_WIDTH SCREEN_HEIGHT frames)"
  by (simp add: run64_def)

lemma run64_zoom_ok: "zoom_ok (zoom64 (run64 SCREEN_WIDTH SCREEN_HEIGHT frames))"
proof (induction frames rule: rev_induct)
  case Nil
  show ?case by (simp add: run64_def initial_view64_def zoom_ok_def)
next
  case (snoc clicks frames)
  then show ?case
    using zoom_step [of "zoom64 (run64 SCREEN_WIDTH SCREEN_HEIGHT frames)"]
    by (simp add: run64_snoc frame64_zoom)
qed

lemma zoom_ok_positive: "zoom_ok z \<Longrightarrow> d_less (Fin 0 0) z"
  by (auto simp: zoom_ok_def split: double.splits)

lemma zoom64_sticks: "d_mul (Fin 33 (- 1074)) zoom_speed64 = Fin 33 (- 1074)"
  by (simp add: zoom_speed64_def b64_eval)

text \<open>
  C10, as the code has it. Starting from \<open>zoom = 1.0\<close>, after any number of frames with
  any clicks \<open>zoom\<close> is strictly positive; every frame multiplies \<open>zoom\<close> by the double
  \<open>0.985\<close> once, rounded to binary64, and a click leaves \<open>zoom\<close> as it is; from one frame
  to the next \<open>zoom\<close> never grows. It does not shrink in every frame: at
  \<open>33 \<cdot> 2\<^sup>-\<^sup>1\<^sup>0\<^sup>7\<^sup>4\<close> the rounded product is \<open>zoom\<close> again.
\<close>

theorem zoom64_positive_nonincreasing:
  "d_less (Fin 0 0) (zoom64 (run64 SCREEN_WIDTH SCREEN_HEIGHT frames))
   \<and> d_ge (zoom64 (run64 SCREEN_WIDTH SCREEN_HEIGHT frames))
           (zoom64 (run64 SCREEN_WIDTH SCREEN_HEIGHT (frames @ [clicks])))
   \<and> zoom64 (frame64 SCREEN_WIDTH SCREEN_HEIGHT clicks v) = d_mul (zoom64 v) zoom_speed64
   \<and> zoom64 (left_click64 SCREEN_WIDTH SCREEN_HEIGHT button_x button_y v) = zoom64 v
   \<and> d_mul (Fin 33 (- 1074)) zoom_speed64 = Fin 33 (- 1074)"
  using run64_zoom_ok [of SCREEN_WIDTH SCREEN_HEIGHT frames]
    zoom_step [of "zoom64 (run64 SCREEN_WIDTH SCREEN_HEIGHT frames)"]
  by (simp add: zoom_ok_positive run64_snoc frame64_zoom left_click64_zoom zoom64_sticks)

lemma d_less_scaled:
  assumes "zoom_ok a" and "zoom_ok c" and "d_less a c"
  shows "scaled a < scaled c"
proof -
  from assms(1) obtain m1 e1 where a: "a = Fin m1 e1" and m1: "0 < m1" and e1: "- 1074 \<le> e1"
    by (auto simp: zoom_ok_def split: double.splits)
  from assms(2) obtain m2 e2 where c: "c = Fin m2 e2" and m2: "0 < m2" and e2: "- 1074 \<le> e2"
    by (auto simp: zoom_ok_def split: double.splits)
  define mn where "mn = min e1 e2"
  have lt: "m1 * 2 ^ nat (e1 - mn) < m2 * 2 ^ nat (e2 - mn)"
    using assms(3) by (simp add: a c mn_def)
  have mn: "- 1074 \<le> mn" "mn \<le> e1" "mn \<le> e2" using e1 e2 by (simp_all add: mn_def)
  have p1: "(2::int) ^ nat (e1 + 1074) = 2 ^ nat (e1 - mn) * 2 ^ nat (mn + 1074)"
    using mn by (simp add: power_add [symmetric] nat_add_distrib [symmetric])
  have p2: "(2::int) ^ nat (e2 + 1074) = 2 ^ nat (e2 - mn) * 2 ^ nat (mn + 1074)"
    using mn by (simp add: power_add [symmetric] nat_add_distrib [symmetric])
  have "m1 * 2 ^ nat (e1 - mn) * 2 ^ nat (mn + 1074) < m2 * 2 ^ nat (e2 - mn) * 2 ^ nat (mn + 1074)"
    using lt by simp
  then have "m1 * 2 ^ nat (e1 + 1074) < m2 * 2 ^ nat (e2 + 1074)"
    by (simp add: p1 p2 mult.assoc)
  moreover have "0 \<le> m1 * 2 ^ nat (e1 + 1074)" using m1 by simp
  ultimately show ?thesis
    by (simp add: scaled_def a c nat_less_iff)
qed

lemma no_infinite_descent:
  fixes f :: "nat \<Rightarrow> nat"
  shows "\<not> (\<forall>n. f (Suc n) < f n)"
proof
  assume dec: "\<forall>n. f (Suc n) < f n"
  have "f n + n \<le> f 0" for n
  proof (induction n)
    case 0
    show ?case by simp
  next
    case (Suc n)
    from dec have "f (Suc n) < f n" by blast
    with Suc show ?case by simp
  qed
  from this [of "Suc (f 0)"] show False by simp
qed

text \<open>
  C10 as the specification words it has \<open>zoom\<close> strictly decreasing across frames. The
  values of \<open>zoom\<close> are whole multiples of \<open>2\<^sup>-\<^sup>1\<^sup>0\<^sup>7\<^sup>4\<close>, so they cannot decrease in every
  frame of a run without clicks, however long.
\<close>

theorem zoom64_not_strictly_decreasing:
  "\<not> (\<forall>n. d_less (zoom64 (run64 800 600 (replicate (Suc n) [])))
                 (zoom64 (run64 800 600 (replicate n []))))"
proof
  assume dec: "\<forall>n. d_less (zoom64 (run64 800 600 (replicate (Suc n) [])))
                 (zoom64 (run64 800 600 (replicate n [])))"
  have "scaled (zoom64 (run64 800 600 (replicate (Suc n) [])))
          < scaled (zoom64 (run64 800 600 (replicate n [])))" for n
    using dec by (intro d_less_scaled run64_zoom_ok) blast
  then show False
    using no_infinite_descent [of "\<lambda>n. scaled (zoom64 (run64 800 600 (replicate n [])))"] by blast
qed

end
